theory Spec2Isabelle
  imports Main
begin

section \<open>Python values and built-in operations used by \<open>source.py\<close>\<close>

text \<open>
  Offsets, line numbers and positions are Python integers (unbounded, possibly
  negative), so they are modelled as \<open>int\<close>. Source text is a \<open>string\<close>, one
  \<open>char\<close> per character of the Python string. An exception is a value of type
  \<open>error\<close>; a call that may raise returns \<open>error + 'a\<close> with \<open>Inl\<close> the exception.
\<close>

type_synonym ref = nat

record Range =
  source_buffer :: ref
  begin_pos :: int
  end_pos :: int

datatype error =
    IndexError
  | ValueError
  | NameError string
  | RewriterConflict Range Range

definition newline :: char where
  "newline = CHR 0x0A"

text \<open>
  Slice bounds as CPython adjusts them for a sequence of length \<open>n\<close> (step 1):
  a negative bound has \<open>n\<close> added and is then raised to 0 if still negative;
  a bound of \<open>n\<close> or more becomes \<open>n\<close>.
\<close>

definition adjust_index :: "nat \<Rightarrow> int \<Rightarrow> nat" where
  "adjust_index n i =
     (if i < 0 then (if i + int n < 0 then 0 else nat (i + int n))
      else if int n \<le> i then n else nat i)"

text \<open>\<open>xs[start:stop]\<close>; an omitted bound is \<open>None\<close>. Empty when the adjusted stop
  does not exceed the adjusted start.\<close>

definition py_slice :: "'a list \<Rightarrow> int option \<Rightarrow> int option \<Rightarrow> 'a list" where
  "py_slice xs start stop =
     (let n = length xs;
          lo = (case start of None \<Rightarrow> 0 | Some i \<Rightarrow> adjust_index n i);
          hi = (case stop of None \<Rightarrow> n | Some j \<Rightarrow> adjust_index n j)
      in take (hi - lo) (drop lo xs))"

text \<open>\<open>xs[i]\<close>: a negative index counts from the end; out of range raises
  \<open>IndexError\<close>.\<close>

definition py_index :: "'a list \<Rightarrow> int \<Rightarrow> error + 'a" where
  "py_index xs i =
     (let n = int (length xs); j = (if i < 0 then i + n else i)
      in if 0 \<le> j \<and> j < n then Inr (xs ! nat j) else Inl IndexError)"

text \<open>\<open>s.find(c, start)\<close> for a one-character needle: the lowest index at or
  after the (adjusted) start holding \<open>c\<close>, or \<open>-1\<close>.\<close>

fun find_from :: "char \<Rightarrow> string \<Rightarrow> nat \<Rightarrow> int" where
  "find_from c [] k = - 1"
| "find_from c (x # xs) k = (if x = c then int k else find_from c xs (Suc k))"

definition str_find :: "string \<Rightarrow> char \<Rightarrow> int option \<Rightarrow> int" where
  "str_find s c start =
     (let n = length s;
          st = (case start of None \<Rightarrow> 0
                | Some i \<Rightarrow> if i < 0 then (if i + int n < 0 then 0 else nat (i + int n))
                            else nat i)
      in find_from c (drop st s) st)"

text \<open>\<open>bisect.bisect_right(a, x)\<close> of the standard library: binary search with
  \<open>lo = 0\<close>, \<open>hi = len(a)\<close>.\<close>

function bisect_loop :: "int list \<Rightarrow> int \<Rightarrow> nat \<Rightarrow> nat \<Rightarrow> nat" where
  "bisect_loop a x lo hi =
     (if lo < hi then
        (let mid = (lo + hi) div 2
         in if x < a ! mid then bisect_loop a x lo mid
            else bisect_loop a x (mid + 1) hi)
      else lo)"
  by pat_completeness auto
termination
  by (relation "measure (\<lambda>(a, x, lo, hi). hi - lo)") auto

declare bisect_loop.simps [simp del]

definition bisect_right :: "int list \<Rightarrow> int \<Rightarrow> nat" where
  "bisect_right a x = bisect_loop a x 0 (length a)"

section \<open>Buffer\<close>

text \<open>
  The fields of class \<open>Buffer\<close>. \<open>line_begins_cache\<close> is the attribute
  \<open>_line_begins\<close>: \<open>None\<close> until the line index has been computed.
\<close>

record Buffer =
  source :: string
  name :: string
  first_line :: int
  line_begins_cache :: "int list option"

definition Buffer_init :: "string \<Rightarrow> string \<Rightarrow> int \<Rightarrow> Buffer" where
  "Buffer_init src nm fl =
     \<lparr>source = src, name = nm, first_line = fl, line_begins_cache = None\<rparr>"

text \<open>The \<open>while True\<close> loop of \<open>_extract_line_begins\<close>: \<open>index\<close> starts as
  \<open>None\<close>, \<open>acc\<close> is the list being appended to.\<close>

function line_begins_loop :: "string \<Rightarrow> int option \<Rightarrow> int list \<Rightarrow> int list" where
  "line_begins_loop src index acc =
     (let index' = str_find src newline index + 1
      in if index' = 0 then acc
         else line_begins_loop src (Some index') (acc @ [index']))"
  by pat_completeness auto

lemma find_from_bounds:
  "find_from c xs k \<noteq> - 1 \<Longrightarrow>
     int k \<le> find_from c xs k \<and> find_from c xs k < int k + int (length xs)"
  by (induction xs arbitrary: k) (auto split: if_splits, force+)

lemma str_find_bounds:
  "str_find s c start \<noteq> - 1 \<Longrightarrow>
     (case start of None \<Rightarrow> 0 | Some i \<Rightarrow> i) \<le> str_find s c start \<and>
     str_find s c start < int (length s)"
  unfolding str_find_def Let_def
  by (cases start) (auto dest!: find_from_bounds split: if_splits)

termination line_begins_loop
proof (relation "measure (\<lambda>(src, index, acc).
         nat (int (length src) + 1 - (case index of None \<Rightarrow> 0 | Some i \<Rightarrow> i)))")
  show "wf (measure (\<lambda>(src, index, acc).
         nat (int (length src) + 1 - (case index of None \<Rightarrow> 0 | Some i \<Rightarrow> i))))"
    by simp
next
  fix src :: string and index :: "int option" and acc :: "int list" and x :: int
  assume x: "x = str_find src newline index + 1" and nz: "x \<noteq> 0"
  from nz x have "str_find src newline index \<noteq> - 1" by simp
  from str_find_bounds[OF this] x
  show "((src, Some x, acc @ [x]), (src, index, acc)) \<in> measure (\<lambda>(src, index, acc).
         nat (int (length src) + 1 - (case index of None \<Rightarrow> 0 | Some i \<Rightarrow> i)))"
    by (cases index) auto
qed

declare line_begins_loop.simps [simp del]

text \<open>\<open>_extract_line_begins\<close>: the cached list is returned when it is truthy
  (not \<open>None\<close> and not empty); otherwise the index is computed and stored.
  The result is the index together with the buffer as the call leaves it.\<close>

definition extract_line_begins :: "Buffer \<Rightarrow> int list \<times> Buffer" where
  "extract_line_begins b =
     (case line_begins_cache b of
        Some lb \<Rightarrow>
          if lb \<noteq> [] then (lb, b)
          else (let lb' = line_begins_loop (source b) None [0]
                in (lb', b\<lparr>line_begins_cache := Some lb'\<rparr>))
      | None \<Rightarrow>
          (let lb' = line_begins_loop (source b) None [0]
           in (lb', b\<lparr>line_begins_cache := Some lb'\<rparr>)))"

definition source_line :: "Buffer \<Rightarrow> int \<Rightarrow> (error + string) \<times> Buffer" where
  "source_line b lineno =
     (let (line_begins, b') = extract_line_begins b;
          lineno = lineno - first_line b'
      in if 0 \<le> lineno \<and> lineno + 1 < int (length line_begins) then
           (case py_slice line_begins (Some lineno) (Some (lineno + 2)) of
              [first', last'] \<Rightarrow>
                (Inr (py_slice (source b') (Some first') (Some last')), b')
            | _ \<Rightarrow> (Inl ValueError, b'))
         else if 0 \<le> lineno \<and> lineno < int (length line_begins) then
           (case py_index line_begins (- 1) of
              Inl e \<Rightarrow> (Inl e, b')
            | Inr lb \<Rightarrow> (Inr (py_slice (source b') (Some lb) None), b'))
         else (Inl IndexError, b'))"

definition decompose_position :: "Buffer \<Rightarrow> int \<Rightarrow> (error + int \<times> int) \<times> Buffer" where
  "decompose_position b offset =
     (let (line_begins, b') = extract_line_begins b;
          lineno = int (bisect_right line_begins offset) - 1
      in if 0 \<le> offset \<and> offset \<le> int (length (source b')) then
           (case py_index line_begins lineno of
              Inl e \<Rightarrow> (Inl e, b')
            | Inr lb \<Rightarrow> (Inr (lineno + first_line b', offset - lb), b'))
         else (Inl IndexError, b'))"

text \<open>The states of the cache a buffer can be in: not yet computed, or holding
  the index of its own source.\<close>

definition cache_valid :: "Buffer \<Rightarrow> bool" where
  "cache_valid b =
     (line_begins_cache b = None \<or>
      line_begins_cache b = Some (line_begins_loop (source b) None [0]))"

section \<open>Range\<close>

text \<open>
  A \<open>Range\<close> refers to its buffer: \<open>source_buffer\<close> is the address of a
  \<open>Buffer\<close> object, and a store maps addresses to the objects. Class \<open>Buffer\<close>
  defines no \<open>__eq__\<close>, so \<open>==\<close> and \<open>!=\<close> on buffers compare addresses.
\<close>

type_synonym store = "ref \<Rightarrow> Buffer"

definition Range_init :: "ref \<Rightarrow> int \<Rightarrow> int \<Rightarrow> Range" where
  "Range_init sb bp ep = \<lparr>source_buffer = sb, begin_pos = bp, end_pos = ep\<rparr>"

definition Range_begin :: "Range \<Rightarrow> Range" where
  "Range_begin r = Range_init (source_buffer r) (begin_pos r) (begin_pos r)"

definition Range_end :: "Range \<Rightarrow> Range" where
  "Range_end r = Range_init (source_buffer r) (end_pos r) (end_pos r)"

definition Range_size :: "Range \<Rightarrow> int" where
  "Range_size r = end_pos r - begin_pos r"

definition join :: "Range \<Rightarrow> Range \<Rightarrow> error + Range" where
  "join r other =
     (if source_buffer r \<noteq> source_buffer other then Inl ValueError
      else Inr (Range_init (source_buffer r)
                  (min (begin_pos r) (begin_pos other))
                  (max (end_pos r) (end_pos other))))"

definition Range_source :: "store \<Rightarrow> Range \<Rightarrow> string" where
  "Range_source st r =
     py_slice (source (st (source_buffer r))) (Some (begin_pos r)) (Some (end_pos r))"

text \<open>\<open>Range.__eq__\<close> between two ranges (the \<open>type\<close> test holds for them).\<close>

definition Range_eq :: "Range \<Rightarrow> Range \<Rightarrow> bool" where
  "Range_eq r other =
     (source_buffer r = source_buffer other \<and>
      begin_pos r = begin_pos other \<and>
      end_pos r = end_pos other)"

section \<open>Rewriter\<close>

record Rewriter =
  buffer :: ref
  ranges :: "(Range \<times> string) list"

definition Rewriter_init :: "ref \<Rightarrow> Rewriter" where
  "Rewriter_init buf = \<lparr>buffer = buf, ranges = []\<rparr>"

definition replace :: "Rewriter \<Rightarrow> Range \<Rightarrow> string \<Rightarrow> Rewriter" where
  "replace rw rng replacement = rw\<lparr>ranges := ranges rw @ [(rng, replacement)]\<rparr>"

definition remove :: "Rewriter \<Rightarrow> Range \<Rightarrow> Rewriter" where
  "remove rw rng = replace rw rng []"

definition insert_before :: "Rewriter \<Rightarrow> Range \<Rightarrow> string \<Rightarrow> Rewriter" where
  "insert_before rw rng txt = replace rw (Range_begin rng) txt"

definition insert_after :: "Rewriter \<Rightarrow> Range \<Rightarrow> string \<Rightarrow> Rewriter" where
  "insert_after rw rng txt = replace rw (Range_end rng) txt"

text \<open>
  \<open>RewriterConflict.__init__\<close> stores \<open>first\<close> and \<open>second\<close> and then evaluates
  \<open>exception.__init__(...)\<close>. The name \<open>exception\<close> is bound neither in the module
  nor among the built-ins, so the constructor call raises \<open>NameError\<close> before an
  exception object is returned. \<open>Inr\<close> would be the constructed exception.
\<close>

definition RewriterConflict_init :: "Range \<Rightarrow> Range \<Rightarrow> error + error" where
  "RewriterConflict_init fst_range snd_range = Inl (NameError ''exception'')"

text \<open>\<open>raise C(args)\<close>: the exception raised is the constructed one, or the one
  its construction raised.\<close>

definition raise_constructed :: "error + error \<Rightarrow> error + 'a" where
  "raise_constructed c = (case c of Inl e \<Rightarrow> Inl e | Inr exc \<Rightarrow> Inl exc)"

text \<open>\<open>_sort\<close>: \<open>list.sort\<close> is a stable sort by the key.\<close>

definition Rewriter_sort :: "Rewriter \<Rightarrow> Rewriter" where
  "Rewriter_sort rw = rw\<lparr>ranges := sort_key (\<lambda>x. begin_pos (fst x)) (ranges rw)\<rparr>"

text \<open>\<open>_check\<close>: the loop over \<open>zip(self.ranges, self.ranges[1:])\<close>.\<close>

fun check_loop :: "((Range \<times> string) \<times> (Range \<times> string)) list \<Rightarrow> error + unit" where
  "check_loop [] = Inr ()"
| "check_loop (((fst_range, _), (snd_range, _)) # ps) =
     (if begin_pos snd_range < end_pos fst_range
      then raise_constructed (RewriterConflict_init fst_range snd_range)
      else check_loop ps)"

definition Rewriter_check :: "Rewriter \<Rightarrow> error + unit" where
  "Rewriter_check rw = check_loop (zip (ranges rw) (py_slice (ranges rw) (Some 1) None))"

text \<open>The \<open>for\<close> loop of \<open>rewrite\<close> over the sorted edits, with the list
  \<open>rewritten\<close> and the cursor \<open>pos\<close>.\<close>

fun rewrite_loop ::
  "string \<Rightarrow> (Range \<times> string) list \<Rightarrow> string list \<Rightarrow> int \<Rightarrow> string list \<times> int" where
  "rewrite_loop src [] rewritten pos = (rewritten, pos)"
| "rewrite_loop src ((rng, replacement) # rest) rewritten pos =
     rewrite_loop src rest
       ((rewritten @ [py_slice src (Some pos) (Some (begin_pos rng))]) @ [replacement])
       (end_pos rng)"

text \<open>\<open>rewrite\<close> returns the new buffer or the exception, and the rewriter as the
  call leaves it (its edit list sorted).\<close>

definition rewrite :: "store \<Rightarrow> Rewriter \<Rightarrow> (error + Buffer) \<times> Rewriter" where
  "rewrite st rw =
     (let rw' = Rewriter_sort rw
      in case Rewriter_check rw' of
           Inl e \<Rightarrow> (Inl e, rw')
         | Inr _ \<Rightarrow>
             (let b = st (buffer rw');
                  (rewritten, pos) = rewrite_loop (source b) (ranges rw') [] 0;
                  rewritten' = rewritten @ [py_slice (source b) (Some pos) None]
              in (Inr (Buffer_init (concat rewritten') (name b) (first_line b)), rw')))"

text \<open>A store holding the one buffer \<open>b\<close> (at every address).\<close>

definition store_of :: "Buffer \<Rightarrow> store" where
  "store_of b = (\<lambda>r. b)"

section \<open>Specification-level notions\<close>

text \<open>The offsets of the newline characters of a text, in increasing order.\<close>

definition newline_offsets :: "string \<Rightarrow> nat list" where
  "newline_offsets s = filter (\<lambda>k. s ! k = newline) [0..<length s]"

text \<open>The line index of a text as the specification describes it: 0, then the offset
  just past each newline.\<close>

definition line_index :: "string \<Rightarrow> int list" where
  "line_index s = 0 # map (\<lambda>k. int (Suc k)) (newline_offsets s)"

text \<open>
  The splice of a text with a list of edits, as the rewriter describes it: from the
  cursor, the text up to the edit's \<open>begin_pos\<close>, then the replacement, the cursor
  moving to the edit's \<open>end_pos\<close>; after the last edit, the rest of the text. The
  pieces are slices of the text.
\<close>

fun splice :: "string \<Rightarrow> int \<Rightarrow> (Range \<times> string) list \<Rightarrow> string" where
  "splice src cursor [] = py_slice src (Some cursor) None"
| "splice src cursor ((r, txt) # es) =
     py_slice src (Some cursor) (Some (begin_pos r)) @ txt @ splice src (end_pos r) es"

text \<open>
  The same splice with every offset first mapped to a position of the text by \<open>f\<close>, the
  pieces being taken with \<open>take\<close> and \<open>drop\<close>: the characters at the positions from the
  cursor up to, not including, \<open>f begin_pos\<close>.
\<close>

fun splice_at :: "(int \<Rightarrow> nat) \<Rightarrow> string \<Rightarrow> nat \<Rightarrow> (Range \<times> string) list \<Rightarrow> string" where
  "splice_at f src cursor [] = drop cursor src"
| "splice_at f src cursor ((r, txt) # es) =
     take (f (begin_pos r) - cursor) (drop cursor src) @ txt @ splice_at f src (f (end_pos r)) es"

text \<open>An offset clamped to the positions \<open>0 .. n\<close> of a text of length \<open>n\<close>.\<close>

definition clamp_offset :: "nat \<Rightarrow> int \<Rightarrow> nat" where
  "clamp_offset n p = nat (max 0 (min p (int n)))"

section \<open>Facts about the built-in operations\<close>

lemma adjust_index_mono_nonneg:
  "0 \<le> j \<Longrightarrow> j \<le> i \<Longrightarrow> adjust_index n j \<le> adjust_index n i"
  by (auto simp add: adjust_index_def)

lemma adjust_index_mono_neg:
  "i < 0 \<Longrightarrow> j \<le> i \<Longrightarrow> adjust_index n j \<le> adjust_index n i"
  by (auto simp add: adjust_index_def)

lemma py_slice_reversed_empty:
  assumes "j \<le> i" and "0 \<le> j \<or> i < 0"
  shows "py_slice xs (Some i) (Some j) = []"
proof -
  have "adjust_index (length xs) j \<le> adjust_index (length xs) i"
    using assms adjust_index_mono_nonneg adjust_index_mono_neg by blast
  then show ?thesis by (simp add: py_slice_def)
qed

lemma py_slice_in_range:
  assumes "0 \<le> i" "i \<le> j" "j \<le> int (length xs)"
  shows "py_slice xs (Some i) (Some j) = take (nat (j - i)) (drop (nat i) xs)"
proof -
  have "adjust_index (length xs) i = nat i" "adjust_index (length xs) j = nat j"
    using assms by (auto simp: adjust_index_def)
  moreover have "nat j - nat i = nat (j - i)" using assms by simp
  ultimately show ?thesis by (simp add: py_slice_def)
qed

lemma py_slice_tail:
  assumes "0 \<le> i"
  shows "py_slice xs (Some i) None = drop (nat i) xs"
proof -
  have "adjust_index (length xs) i = min (nat i) (length xs)"
    using assms by (auto simp: adjust_index_def)
  then show ?thesis by (simp add: py_slice_def min_def Let_def)
qed

lemma py_slice_pair:
  assumes "i + 1 < length xs"
  shows "py_slice xs (Some (int i)) (Some (int i + 2)) = [xs ! i, xs ! (i + 1)]"
proof -
  have "py_slice xs (Some (int i)) (Some (int i + 2)) = take 2 (drop i xs)"
    using py_slice_in_range[of "int i" "int i + 2" xs] assms by simp
  also have "\<dots> = [xs ! i, xs ! (i + 1)]"
    using assms by (simp add: take_Suc_conv_app_nth numeral_2_eq_2)
  finally show ?thesis .
qed

lemma py_index_last:
  assumes "xs \<noteq> []"
  shows "py_index xs (- 1) = Inr (last xs)"
  using assms by (simp add: py_index_def last_conv_nth nat_diff_distrib')

section \<open>Buffer: the line index\<close>

lemma find_from_absent: "c \<notin> set xs \<Longrightarrow> find_from c xs k = - 1"
  by (induction xs arbitrary: k) auto

lemma find_from_present:
  "c \<in> set xs \<Longrightarrow>
     \<exists>p. find_from c xs k = int (k + p) \<and> p < length xs \<and> xs ! p = c \<and> (\<forall>j<p. xs ! j \<noteq> c)"
proof (induction xs arbitrary: k)
  case Nil
  then show ?case by simp
next
  case (Cons x xs)
  show ?case
  proof (cases "x = c")
    case True
    then show ?thesis by (intro exI[of _ 0]) simp
  next
    case False
    with Cons.prems have "c \<in> set xs" by simp
    from Cons.IH[OF this, of "Suc k"] obtain p where
      p: "find_from c xs (Suc k) = int (Suc k + p)" "p < length xs" "xs ! p = c"
         "\<forall>j<p. xs ! j \<noteq> c" by blast
    have "\<forall>j<Suc p. (x # xs) ! j \<noteq> c"
      using False p(4) by (auto simp: nth_Cons split: nat.splits)
    with False p show ?thesis by (intro exI[of _ "Suc p"]) simp
  qed
qed

lemma str_find_Some_nat: "str_find s c (Some (int i)) = find_from c (drop i s) i"
  by (simp add: str_find_def)

lemma str_find_None: "str_find s c None = str_find s c (Some 0)"
  by (simp add: str_find_def)

lemma filter_upt_absent:
  assumes "c \<notin> set (drop i s)"
  shows "filter (\<lambda>k. s ! k = c) [i..<length s] = []"
proof -
  have "\<And>k. i \<le> k \<Longrightarrow> k < length s \<Longrightarrow> s ! k \<noteq> c"
  proof
    fix k assume k: "i \<le> k" "k < length s" "s ! k = c"
    then have "drop i s ! (k - i) = c" by simp
    moreover have "k - i < length (drop i s)" using k by simp
    ultimately have "c \<in> set (drop i s)" using nth_mem by metis
    with assms show False by simp
  qed
  then show ?thesis by (auto simp: filter_empty_conv)
qed

lemma filter_upt_first:
  assumes "i \<le> p" "p < n" "P p" "\<forall>k. i \<le> k \<and> k < p \<longrightarrow> \<not> P k"
  shows "filter P [i..<n] = p # filter P [Suc p..<n]"
proof -
  have "[i..<n] = [i..<p] @ p # [Suc p..<n]"
    using assms(1,2) by (metis le_Suc_ex less_imp_le_nat upt_add_eq_append upt_conv_Cons)
  moreover have "filter P [i..<p] = []"
    using assms(4) by (auto simp: filter_empty_conv)
  ultimately show ?thesis using assms(3) by simp
qed

lemma line_begins_loop_from:
  "i \<le> length s \<Longrightarrow>
     line_begins_loop s (Some (int i)) acc =
       acc @ map (\<lambda>k. int (Suc k)) (filter (\<lambda>k. s ! k = newline) [i..<length s])"
proof (induction "length s - i" arbitrary: i acc rule: less_induct)
  case less
  show ?case
  proof (cases "newline \<in> set (drop i s)")
    case False
    then have "str_find s newline (Some (int i)) = - 1"
      by (simp add: str_find_Some_nat find_from_absent)
    moreover have "filter (\<lambda>k. s ! k = newline) [i..<length s] = []"
      using False by (rule filter_upt_absent)
    ultimately show ?thesis
      by (subst line_begins_loop.simps) simp
  next
    case True
    from find_from_present[OF this, of i] obtain q where
      q: "find_from newline (drop i s) i = int (i + q)" "q < length (drop i s)"
         "drop i s ! q = newline" "\<forall>j<q. drop i s ! j \<noteq> newline" by blast
    define p where "p = i + q"
    have pn: "p < length s" and ip: "i \<le> p" using q(2) by (simp_all add: p_def)
    have sp: "s ! p = newline" using q(3) pn by (simp add: p_def)
    have before: "\<forall>k. i \<le> k \<and> k < p \<longrightarrow> s ! k \<noteq> newline"
    proof (intro allI impI)
      fix k assume k: "i \<le> k \<and> k < p"
      then have "k - i < q" by (simp add: p_def) arith
      with q(4) have "drop i s ! (k - i) \<noteq> newline" by blast
      moreover have "drop i s ! (k - i) = s ! k" using k pn by simp
      ultimately show "s ! k \<noteq> newline" by simp
    qed
    have sf: "str_find s newline (Some (int i)) = int p"
      by (simp add: str_find_Some_nat q(1) p_def)
    have fl: "filter (\<lambda>k. s ! k = newline) [i..<length s] =
                p # filter (\<lambda>k. s ! k = newline) [Suc p..<length s]"
      using filter_upt_first[of i p "length s" "\<lambda>k. s ! k = newline"] ip pn sp before by blast
    have IH: "line_begins_loop s (Some (int (Suc p))) (acc @ [int (Suc p)]) =
                (acc @ [int (Suc p)]) @ map (\<lambda>k. int (Suc k))
                   (filter (\<lambda>k. s ! k = newline) [Suc p..<length s])"
      using less.hyps[of "Suc p" "acc @ [int (Suc p)]"] pn ip less.prems by simp
    have nz: "int p + 1 \<noteq> 0" by simp
    have "line_begins_loop s (Some (int i)) acc =
            line_begins_loop s (Some (int p + 1)) (acc @ [int p + 1])"
      by (subst line_begins_loop.simps) (simp only: sf Let_def nz if_False)
    also have "\<dots> = line_begins_loop s (Some (int (Suc p))) (acc @ [int (Suc p)])"
      by (simp add: add.commute)
    finally show ?thesis by (simp only: IH fl list.map append_assoc append.simps)
  qed
qed

lemma line_begins_loop_None:
  "line_begins_loop s None acc = line_begins_loop s (Some 0) acc"
  by (simp add: line_begins_loop.simps[of s None] line_begins_loop.simps[of s "Some 0"]
        str_find_None)

lemma line_begins_eq:
  "line_begins_loop s None [0] = 0 # map (\<lambda>k. int (Suc k)) (newline_offsets s)"
  using line_begins_loop_from[of 0 s "[0]"]
  by (simp add: line_begins_loop_None newline_offsets_def)

lemma length_newline_offsets: "length (newline_offsets s) = count_list s newline"
proof -
  have flip: "(\<lambda>k. newline = s ! k) = (\<lambda>k. s ! k = newline)" by auto
  have "count_list s newline = length (filter ((=) newline) (map ((!) s) [0..<length s]))"
    by (simp add: map_nth count_list_eq_length_filter)
  also have "\<dots> = length (filter ((=) newline \<circ> (!) s) [0..<length s])"
    by (simp only: filter_map length_map)
  also have "\<dots> = length (newline_offsets s)"
    by (simp add: newline_offsets_def comp_def flip)
  finally show ?thesis by simp
qed

lemma sorted_newline_offsets: "sorted_wrt (<) (newline_offsets s)"
  by (simp add: newline_offsets_def sorted_wrt_filter)

lemma strict_sorted_line_begins:
  "sorted_wrt (<) (0 # map (\<lambda>k. int (Suc k)) (newline_offsets s))"
  using sorted_newline_offsets[of s] by (simp add: sorted_wrt_map)

lemma line_begins_loop_nonempty: "line_begins_loop s None [0] \<noteq> []"
  by (simp add: line_begins_eq)

lemma extract_line_begins_valid:
  assumes "cache_valid b"
  shows "fst (extract_line_begins b) = line_begins_loop (source b) None [0]"
    and "snd (extract_line_begins b) = b\<lparr>line_begins_cache := Some (line_begins_loop (source b) None [0])\<rparr>"
  using assms line_begins_loop_nonempty[of "source b"]
  by (auto simp: extract_line_begins_def cache_valid_def Let_def split: option.splits)

lemma cache_valid_Buffer_init: "cache_valid (Buffer_init s nm fl)"
  by (simp add: cache_valid_def Buffer_init_def)

lemma cache_valid_extract: "cache_valid b \<Longrightarrow> cache_valid (snd (extract_line_begins b))"
  by (simp add: extract_line_begins_valid(2)) (simp add: cache_valid_def)

lemma newline_offsets_nth:
  assumes "i < length (newline_offsets s)"
  shows "newline_offsets s ! i < length s \<and> s ! (newline_offsets s ! i) = newline"
proof -
  have "newline_offsets s ! i \<in> set (newline_offsets s)" using assms by simp
  then show ?thesis by (simp add: newline_offsets_def)
qed

text \<open>
  C4. For every source text the line index computed by \<open>_extract_line_begins\<close> is 0
  followed by the offset just past each newline, in order: its first element is 0, it is
  strictly increasing, its length is the number of newlines plus one, and element
  \<open>i + 1\<close> is one more than the offset of the \<open>i\<close>-th newline. For the empty text and
  for a text without newlines it is \<open>[0]\<close>. A buffer whose index is already cached
  returns the same list.
\<close>

theorem line_begins_index:
  "fst (extract_line_begins (Buffer_init s nm fl)) =
      0 # map (\<lambda>k. int (Suc k)) (newline_offsets s) \<and>
   (cache_valid b \<longrightarrow>
      fst (extract_line_begins b) = 0 # map (\<lambda>k. int (Suc k)) (newline_offsets (source b))) \<and>
   fst (extract_line_begins (Buffer_init s nm fl)) ! 0 = 0 \<and>
   sorted_wrt (<) (fst (extract_line_begins (Buffer_init s nm fl))) \<and>
   length (fst (extract_line_begins (Buffer_init s nm fl))) = count_list s newline + 1 \<and>
   (\<forall>i < count_list s newline.
      fst (extract_line_begins (Buffer_init s nm fl)) ! Suc i = int (newline_offsets s ! i) + 1 \<and>
      newline_offsets s ! i < length s \<and>
      s ! (newline_offsets s ! i) = newline) \<and>
   (newline \<notin> set s \<longrightarrow> fst (extract_line_begins (Buffer_init s nm fl)) = [0]) \<and>
   fst (extract_line_begins (Buffer_init [] nm fl)) = [0]"
proof -
  let ?lb = "fst (extract_line_begins (Buffer_init s nm fl))"
  have src: "source (Buffer_init s nm fl) = s" by (simp add: Buffer_init_def)
  have eq: "?lb = 0 # map (\<lambda>k. int (Suc k)) (newline_offsets s)"
    using extract_line_begins_valid(1)[OF cache_valid_Buffer_init, of s nm fl]
    by (simp add: src line_begins_eq)
  have cached: "cache_valid b \<longrightarrow>
      fst (extract_line_begins b) = 0 # map (\<lambda>k. int (Suc k)) (newline_offsets (source b))"
    by (simp add: extract_line_begins_valid(1) line_begins_eq)
  have first: "?lb ! 0 = 0" by (simp add: eq)
  have incr: "sorted_wrt (<) ?lb" by (simp only: eq strict_sorted_line_begins)
  have len: "length ?lb = count_list s newline + 1"
    by (simp add: eq length_newline_offsets)
  have nth: "\<forall>i < count_list s newline.
      ?lb ! Suc i = int (newline_offsets s ! i) + 1 \<and>
      newline_offsets s ! i < length s \<and> s ! (newline_offsets s ! i) = newline"
    using newline_offsets_nth[of _ s] by (simp add: eq length_newline_offsets)
  have none: "newline \<notin> set s \<longrightarrow> ?lb = [0]"
  proof
    assume "newline \<notin> set s"
    then have "count_list s newline = 0" by (simp add: count_list_0_iff)
    then have "newline_offsets s = []" using length_newline_offsets[of s] by simp
    then show "?lb = [0]" by (simp add: eq)
  qed
  have empty: "fst (extract_line_begins (Buffer_init [] nm fl)) = [0]"
    using extract_line_begins_valid(1)[OF cache_valid_Buffer_init, of "[]" nm fl]
    by (simp add: Buffer_init_def line_begins_eq newline_offsets_def)
  from eq cached first incr len nth none empty show ?thesis by blast
qed

theorem line_begins_index_witness:
  "fst (extract_line_begins (Buffer_init ''ab\<newline>cd\<newline>ef'' ''<input>'' 1)) = [0, 3, 6] \<and>
   count_list ''ab\<newline>cd\<newline>ef'' newline = 2 \<and>
   newline_offsets ''ab\<newline>cd\<newline>ef'' = [2, 5] \<and>
   newline \<notin> set ''abc'' \<and>
   fst (extract_line_begins (Buffer_init ''abc'' ''<input>'' 1)) = [0] \<and>
   cache_valid \<lparr>source = ''ab\<newline>cd\<newline>ef'', name = ''<input>'', first_line = 1,
                line_begins_cache = Some [0, 3, 6]\<rparr> \<and>
   fst (extract_line_begins \<lparr>source = ''ab\<newline>cd\<newline>ef'', name = ''<input>'', first_line = 1,
                line_begins_cache = Some [0, 3, 6]\<rparr>) = [0, 3, 6]"
proof -
  let ?s = "''ab\<newline>cd\<newline>ef''"
  let ?b = "\<lparr>source = ?s, name = ''<input>'', first_line = 1,
             line_begins_cache = Some [0, 3, 6]\<rparr>"
  have off: "newline_offsets ?s = [2, 5]"
    by (simp add: newline_offsets_def newline_def upt_rec nth_Cons')
  have cnt: "count_list ?s newline = 2"
    by (simp add: newline_def)
  have abc: "newline \<notin> set ''abc''" by (simp add: newline_def)
  have cv: "cache_valid ?b"
    by (simp add: cache_valid_def line_begins_eq off)
  note t1 = line_begins_index [of ?s "''<input>''" 1 ?b]
  note t2 = line_begins_index [of "''abc''" "''<input>''" 1 ?b]
  from t1 have "fst (extract_line_begins (Buffer_init ?s ''<input>'' 1)) =
      0 # map (\<lambda>k. int (Suc k)) (newline_offsets ?s)" by (rule conjunct1)
  then have a: "fst (extract_line_begins (Buffer_init ?s ''<input>'' 1)) = [0, 3, 6]"
    by (simp add: off)
  from t1 cv have "fst (extract_line_begins ?b) =
      0 # map (\<lambda>k. int (Suc k)) (newline_offsets (source ?b))" by blast
  then have b: "fst (extract_line_begins ?b) = [0, 3, 6]"
    by (simp add: off)
  from t2 abc have c: "fst (extract_line_begins (Buffer_init ''abc'' ''<input>'' 1)) = [0]"
    by blast
  from a cnt off abc c cv b show ?thesis by blast
qed

section \<open>Buffer: positions\<close>

lemma bisect_loop_spec:
  assumes "sorted a" "lo \<le> hi" "hi \<le> length a"
    and "\<forall>i<lo. a ! i \<le> x"
    and "\<forall>i. hi \<le> i \<and> i < length a \<longrightarrow> x < a ! i"
  shows "lo \<le> bisect_loop a x lo hi \<and> bisect_loop a x lo hi \<le> hi \<and>
         (\<forall>i < bisect_loop a x lo hi. a ! i \<le> x) \<and>
         (\<forall>i. bisect_loop a x lo hi \<le> i \<and> i < length a \<longrightarrow> x < a ! i)"
  using assms
proof (induction a x lo hi rule: bisect_loop.induct)
  case (1 a x lo hi)
  show ?case
  proof (cases "lo < hi")
    case False
    with "1.prems" have "lo = hi" by simp
    with "1.prems" False show ?thesis by (simp add: bisect_loop.simps[of a x hi hi])
  next
    case True
    define mid where "mid = (lo + hi) div 2"
    have mid: "lo \<le> mid" "mid < hi" using True by (simp_all add: mid_def)
    show ?thesis
    proof (cases "x < a ! mid")
      case left: True
      have up: "\<forall>i. mid \<le> i \<and> i < length a \<longrightarrow> x < a ! i"
      proof (intro allI impI)
        fix i assume i: "mid \<le> i \<and> i < length a"
        then have "a ! mid \<le> a ! i" using "1.prems"(1) by (simp add: sorted_nth_mono)
        with left show "x < a ! i" by simp
      qed
      have IH: "lo \<le> bisect_loop a x lo mid \<and> bisect_loop a x lo mid \<le> mid \<and>
         (\<forall>i < bisect_loop a x lo mid. a ! i \<le> x) \<and>
         (\<forall>i. bisect_loop a x lo mid \<le> i \<and> i < length a \<longrightarrow> x < a ! i)"
        using "1.IH"(1)[OF True mid_def left "1.prems"(1) mid(1) _ "1.prems"(4) up]
              mid(2) "1.prems"(3) by simp
      have "bisect_loop a x lo hi = bisect_loop a x lo mid"
        using True left by (subst bisect_loop.simps) (simp add: mid_def Let_def)
      with IH mid show ?thesis by simp
    next
      case right: False
      have low: "\<forall>i<mid + 1. a ! i \<le> x"
      proof (intro allI impI)
        fix i assume i: "i < mid + 1"
        then have "a ! i \<le> a ! mid" using "1.prems"(1,3) mid
          by (simp add: sorted_nth_mono)
        with right show "a ! i \<le> x" by simp
      qed
      have IH: "mid + 1 \<le> bisect_loop a x (mid + 1) hi \<and> bisect_loop a x (mid + 1) hi \<le> hi \<and>
         (\<forall>i < bisect_loop a x (mid + 1) hi. a ! i \<le> x) \<and>
         (\<forall>i. bisect_loop a x (mid + 1) hi \<le> i \<and> i < length a \<longrightarrow> x < a ! i)"
        using "1.IH"(2)[OF True mid_def right "1.prems"(1) _ "1.prems"(3) low "1.prems"(5)]
              mid(2) by simp
      have "bisect_loop a x lo hi = bisect_loop a x (mid + 1) hi"
        using True right by (subst bisect_loop.simps) (simp add: mid_def Let_def)
      with IH mid show ?thesis by simp
    qed
  qed
qed

lemma bisect_right_spec:
  assumes "sorted a"
  shows "bisect_right a x \<le> length a"
    and "\<forall>i < bisect_right a x. a ! i \<le> x"
    and "\<forall>i. bisect_right a x \<le> i \<and> i < length a \<longrightarrow> x < a ! i"
  using bisect_loop_spec[of a 0 "length a" x] assms
  by (simp_all add: bisect_right_def)

lemma extract_line_begins_eq:
  assumes "cache_valid b"
  shows "extract_line_begins b = (line_index (source b), b\<lparr>line_begins_cache := Some (line_index (source b))\<rparr>)"
  using extract_line_begins_valid[OF assms]
  by (simp add: prod_eq_iff line_index_def line_begins_eq)

lemma sorted_line_index: "sorted (line_index s)"
  unfolding line_index_def
  using strict_sorted_line_begins[of s] by (rule strict_sorted_imp_sorted)

lemma line_index_bounds:
  assumes "i < length (line_index s)"
  shows "0 \<le> line_index s ! i \<and> line_index s ! i \<le> int (length s)"
proof (cases i)
  case 0
  then show ?thesis by (simp add: line_index_def)
next
  case (Suc j)
  with assms have j: "j < length (newline_offsets s)" by (simp add: line_index_def)
  from newline_offsets_nth[OF this] Suc j show ?thesis by (simp add: line_index_def)
qed

lemma py_index_nat: "i < length xs \<Longrightarrow> py_index xs (int i) = Inr (xs ! i)"
  by (simp add: py_index_def)

lemma decompose_position_in_range:
  assumes cv: "cache_valid b" and lo: "0 \<le> off" and hi: "off \<le> int (length (source b))"
  defines "lb \<equiv> line_index (source b)"
  defines "r \<equiv> bisect_right lb off"
  shows "fst (decompose_position b off) = Inr (int (r - 1) + first_line b, off - lb ! (r - 1))"
    and "1 \<le> r" and "r \<le> length lb" and "lb ! (r - 1) \<le> off"
    and "r < length lb \<longrightarrow> off < lb ! r"
proof -
  have sorted: "sorted lb" by (simp add: lb_def sorted_line_index)
  note bs = bisect_right_spec[OF sorted, of off, folded r_def]
  show r_le: "r \<le> length lb" by (rule bs(1))
  have lb0: "lb ! 0 = 0" and lbne: "0 < length lb" by (simp_all add: lb_def line_index_def)
  show r_pos: "1 \<le> r"
  proof (rule ccontr)
    assume "\<not> 1 \<le> r"
    then have "r = 0" by simp
    with bs(3) lbne have "off < lb ! 0" by blast
    with lb0 lo show False by simp
  qed
  show "lb ! (r - 1) \<le> off" using bs(2) r_pos by simp
  show "r < length lb \<longrightarrow> off < lb ! r" using bs(3) by blast
  have idx: "py_index lb (int r - 1) = Inr (lb ! (r - 1))"
    using py_index_nat[of "r - 1" lb] r_pos r_le by (simp add: of_nat_diff)
  have r1: "int r - 1 = int (r - 1)" using r_pos by (simp add: of_nat_diff)
  show "fst (decompose_position b off) = Inr (int (r - 1) + first_line b, off - lb ! (r - 1))"
    using lo hi idx
    by (simp add: decompose_position_def extract_line_begins_eq[OF cv] Let_def
          lb_def[symmetric] r_def[symmetric] r1)
qed

lemma decompose_position_out_of_range:
  assumes "off < 0 \<or> int (length (source b)) < off"
  shows "fst (decompose_position b off) = Inl IndexError"
proof -
  have "source (snd (extract_line_begins b)) = source b"
    by (simp add: extract_line_begins_def Let_def split: option.splits)
  with assms show ?thesis
    by (auto simp: decompose_position_def Let_def split_beta)
qed

text \<open>
  C3. For a buffer and an offset \<open>off\<close> with \<open>0 \<le> off \<le> len(source)\<close>,
  \<open>decompose_position(off)\<close> returns a pair \<open>(line, col)\<close>; \<open>line - first_line\<close> is an
  index into the line index, and the entry there plus \<open>col\<close> is \<open>off\<close> again. The column
  is not negative.
\<close>

theorem decompose_position_reconstructs_offset:
  assumes "cache_valid b" and "0 \<le> off" and "off \<le> int (length (source b))"
  shows "\<exists>line col.
           fst (decompose_position b off) = Inr (line, col) \<and>
           0 \<le> line - first_line b \<and>
           nat (line - first_line b) < length (fst (extract_line_begins b)) \<and>
           fst (extract_line_begins b) ! nat (line - first_line b) + col = off \<and>
           0 \<le> col"
proof -
  let ?lb = "line_index (source b)"
  let ?r = "bisect_right ?lb off"
  note d = decompose_position_in_range[OF assms]
  have lb: "fst (extract_line_begins b) = ?lb"
    by (simp add: extract_line_begins_eq[OF assms(1)])
  have "fst (decompose_position b off) = Inr (int (?r - 1) + first_line b, off - ?lb ! (?r - 1))"
    by (rule d(1))
  moreover have "0 \<le> int (?r - 1) + first_line b - first_line b" by simp
  moreover have "nat (int (?r - 1) + first_line b - first_line b) < length ?lb"
    using d(2,3) by simp
  moreover have "?lb ! nat (int (?r - 1) + first_line b - first_line b) + (off - ?lb ! (?r - 1)) = off"
    by simp
  moreover have "0 \<le> off - ?lb ! (?r - 1)" using d(4) by simp
  ultimately show ?thesis unfolding lb by blast
qed

theorem decompose_position_reconstructs_offset_witness:
  "cache_valid (Buffer_init ''ab\<newline>cd\<newline>ef'' ''<input>'' 1) \<and>
   (0::int) \<le> 3 \<and> 3 \<le> int (length (source (Buffer_init ''ab\<newline>cd\<newline>ef'' ''<input>'' 1))) \<and>
   fst (decompose_position (Buffer_init ''ab\<newline>cd\<newline>ef'' ''<input>'' 1) 3) = Inr (2, 0) \<and>
   fst (extract_line_begins (Buffer_init ''ab\<newline>cd\<newline>ef'' ''<input>'' 1)) ! nat (2 - 1) + 0 = 3"
proof -
  let ?b = "Buffer_init ''ab\<newline>cd\<newline>ef'' ''<input>'' 1"
  have cv: "cache_valid ?b" by (rule cache_valid_Buffer_init)
  have lo: "(0::int) \<le> 3" by simp
  have hi: "3 \<le> int (length (source ?b))" by (simp add: Buffer_init_def)
  have dp: "fst (decompose_position ?b 3) = Inr (2, 0)" by code_simp
  from decompose_position_reconstructs_offset[OF cv lo hi] dp
  have "fst (extract_line_begins ?b) ! nat (2 - first_line ?b) + 0 = 3" by auto
  then have "fst (extract_line_begins ?b) ! nat (2 - 1) + 0 = 3" by (simp add: Buffer_init_def)
  with cv lo hi dp show ?thesis by blast
qed

text \<open>
  C5. \<open>decompose_position(off)\<close> raises \<open>IndexError\<close> exactly when \<open>off < 0\<close> or
  \<open>off > len(source)\<close>, and raises nothing else; at \<open>off = len(source)\<close>, one past the
  end, it returns a pair.
\<close>

theorem decompose_position_fails_iff_out_of_range:
  assumes "cache_valid b"
  shows "(fst (decompose_position b off) = Inl IndexError \<longleftrightarrow>
            off < 0 \<or> int (length (source b)) < off) \<and>
         ((\<exists>e. fst (decompose_position b off) = Inl e) \<longleftrightarrow>
            off < 0 \<or> int (length (source b)) < off) \<and>
         (\<exists>line col. fst (decompose_position b (int (length (source b)))) = Inr (line, col))"
proof -
  have out: "off < 0 \<or> int (length (source b)) < off \<Longrightarrow>
               fst (decompose_position b off) = Inl IndexError"
    by (rule decompose_position_out_of_range)
  have inr: "\<not> (off < 0 \<or> int (length (source b)) < off) \<Longrightarrow>
               \<exists>p. fst (decompose_position b off) = Inr p"
    using decompose_position_in_range(1)[OF assms, of off] by auto
  have last: "\<exists>line col. fst (decompose_position b (int (length (source b)))) = Inr (line, col)"
    using decompose_position_in_range(1)[OF assms, of "int (length (source b))"] by auto
  from out inr last show ?thesis by (metis Inl_Inr_False)
qed

theorem decompose_position_fails_iff_out_of_range_witness:
  "cache_valid (Buffer_init ''ab\<newline>cd\<newline>ef'' ''<input>'' 1) \<and>
   fst (decompose_position (Buffer_init ''ab\<newline>cd\<newline>ef'' ''<input>'' 1) (- 1)) = Inl IndexError \<and>
   fst (decompose_position (Buffer_init ''ab\<newline>cd\<newline>ef'' ''<input>'' 1) 9) = Inl IndexError \<and>
   fst (decompose_position (Buffer_init ''ab\<newline>cd\<newline>ef'' ''<input>'' 1) 8) = Inr (3, 2)"
proof -
  let ?b = "Buffer_init ''ab\<newline>cd\<newline>ef'' ''<input>'' 1"
  have cv: "cache_valid ?b" by (rule cache_valid_Buffer_init)
  have len: "int (length (source ?b)) = 8" by (simp add: Buffer_init_def)
  have a: "fst (decompose_position ?b (- 1)) = Inl IndexError"
    using decompose_position_fails_iff_out_of_range[OF cv, of "- 1"] by simp
  have b: "fst (decompose_position ?b 9) = Inl IndexError"
    using decompose_position_fails_iff_out_of_range[OF cv, of 9] len by simp
  have c: "fst (decompose_position ?b 8) = Inr (3, 2)" by code_simp
  from cv a b c show ?thesis by blast
qed

section \<open>Buffer: lines\<close>

lemma line_index_strict:
  assumes "i < j" "j < length (line_index s)"
  shows "line_index s ! i < line_index s ! j"
  using strict_sorted_line_begins[of s] assms
  by (simp add: line_index_def sorted_wrt_iff_nth_less del: sorted_wrt.simps)

lemma line_index_Suc_newline:
  assumes "i + 1 < length (line_index s)"
  shows "0 < line_index s ! (i + 1) \<and> s ! nat (line_index s ! (i + 1) - 1) = newline"
proof -
  from assms have j: "i < length (newline_offsets s)" by (simp add: line_index_def)
  from newline_offsets_nth[OF this] j show ?thesis by (simp add: line_index_def)
qed

lemma source_line_cases:
  fixes i :: int
  assumes cv: "cache_valid b"
  defines "lb \<equiv> line_index (source b)"
  defines "lineno \<equiv> i + first_line b"
  shows "0 \<le> i \<and> i + 1 < int (length lb) \<Longrightarrow>
           fst (source_line b lineno) =
             Inr (take (nat (lb ! (nat i + 1) - lb ! nat i)) (drop (nat (lb ! nat i)) (source b)))"
    and "0 \<le> i \<and> i + 1 = int (length lb) \<Longrightarrow>
           fst (source_line b lineno) = Inr (drop (nat (last lb)) (source b))"
    and "i < 0 \<or> int (length lb) \<le> i \<Longrightarrow> fst (source_line b lineno) = Inl IndexError"
proof -
  have ex: "extract_line_begins b = (lb, b\<lparr>line_begins_cache := Some lb\<rparr>)"
    by (simp add: lb_def extract_line_begins_eq[OF cv])
  have ne: "lb \<noteq> []" by (simp add: lb_def line_index_def)
  {
    assume h: "0 \<le> i \<and> i + 1 < int (length lb)"
    define k where "k = nat i"
    have k: "k + 1 < length lb" "i = int k" using h by (auto simp: k_def)
    have pair: "py_slice lb (Some i) (Some (i + 2)) = [lb ! k, lb ! (k + 1)]"
      using py_slice_pair[OF k(1)] k(2) by simp
    have b1: "0 \<le> lb ! k" using line_index_bounds[of k "source b"] k(1) by (simp add: lb_def)
    have b2: "lb ! (k + 1) \<le> int (length (source b))"
      using line_index_bounds[of "k + 1" "source b"] k(1) by (simp add: lb_def)
    have b3: "lb ! k \<le> lb ! (k + 1)"
      using line_index_strict[of k "k + 1" "source b"] k(1) by (simp add: lb_def)
    have "fst (source_line b lineno) =
            Inr (py_slice (source b) (Some (lb ! k)) (Some (lb ! (k + 1))))"
      using h by (simp add: source_line_def ex Let_def lineno_def pair)
    then show "fst (source_line b lineno) =
             Inr (take (nat (lb ! (nat i + 1) - lb ! nat i)) (drop (nat (lb ! nat i)) (source b)))"
      using py_slice_in_range[OF b1 b3 b2] by (simp add: k_def)
  }
  {
    assume h: "0 \<le> i \<and> i + 1 = int (length lb)"
    have "0 \<le> last lb"
      using line_index_bounds[of "length lb - 1" "source b"] ne
      by (simp add: lb_def last_conv_nth)
    then have "py_slice (source b) (Some (last lb)) None = drop (nat (last lb)) (source b)"
      by (rule py_slice_tail)
    then show "fst (source_line b lineno) = Inr (drop (nat (last lb)) (source b))"
      using h by (simp add: source_line_def ex Let_def lineno_def py_index_last[OF ne])
  }
  {
    assume h: "i < 0 \<or> int (length lb) \<le> i"
    then show "fst (source_line b lineno) = Inl IndexError"
      by (auto simp: source_line_def ex Let_def lineno_def)
  }
qed

lemma last_take_drop:
  assumes "0 < m" "f + m \<le> length s"
  shows "take m (drop f s) \<noteq> [] \<and> last (take m (drop f s)) = s ! (f + m - 1)"
proof -
  have len: "length (take m (drop f s)) = m" using assms by simp
  then have ne: "take m (drop f s) \<noteq> []" using assms(1) by auto
  have "last (take m (drop f s)) = take m (drop f s) ! (m - 1)"
    using ne len by (simp add: last_conv_nth)
  also have "\<dots> = s ! (f + (m - 1))" using assms by simp
  finally show ?thesis using ne assms(1) by simp
qed

lemma source_line_ends_with_newline:
  assumes "k + 1 < length (line_index s)"
  defines "f \<equiv> line_index s ! k" and "l \<equiv> line_index s ! (k + 1)"
  shows "take (nat (l - f)) (drop (nat f) s) \<noteq> [] \<and>
         last (take (nat (l - f)) (drop (nat f) s)) = newline"
proof -
  have f0: "0 \<le> f" using line_index_bounds[of k s] assms(1) by (simp add: f_def)
  have ln: "l \<le> int (length s)" using line_index_bounds[of "k + 1" s] assms(1) by (simp add: l_def)
  have fl: "f < l" using line_index_strict[of k "k + 1" s] assms(1) by (simp add: f_def l_def)
  have nl: "s ! nat (l - 1) = newline"
    using line_index_Suc_newline[OF assms(1)] by (simp add: l_def)
  have m: "0 < nat (l - f)" "nat f + nat (l - f) \<le> length s" using f0 ln fl by simp_all
  have "nat f + nat (l - f) - 1 = nat (l - 1)" using f0 fl by simp
  with last_take_drop[OF m] nl show ?thesis by simp
qed

text \<open>
  C6. With \<open>i = lineno - first_line\<close> and the line index \<open>lb\<close>: when \<open>i\<close> addresses a
  line before the last, \<open>source_line(lineno)\<close> is the text from \<open>lb[i]\<close> up to
  \<open>lb[i + 1]\<close>, which ends with the newline; when \<open>i\<close> addresses the last line, it is
  the text from \<open>lb[i]\<close> to the end; when \<open>i\<close> is negative or at least the number of
  lines, \<open>IndexError\<close> is raised. On the buffer of \<open>''ab\<newline>cd\<newline>ef''\<close> with the
  default first line 1, lines 1, 2 and 3 are \<open>''ab\<newline>''\<close>, \<open>''cd\<newline>''\<close> and \<open>''ef''\<close>.
\<close>

theorem source_line_slices:
  fixes lineno :: int
  assumes "cache_valid b"
  defines "lb \<equiv> fst (extract_line_begins b)"
  defines "i \<equiv> lineno - first_line b"
  shows "(0 \<le> i \<and> i + 1 < int (length lb) \<longrightarrow>
            fst (source_line b lineno) =
              Inr (take (nat (lb ! (nat i + 1) - lb ! nat i)) (drop (nat (lb ! nat i)) (source b))) \<and>
            take (nat (lb ! (nat i + 1) - lb ! nat i)) (drop (nat (lb ! nat i)) (source b)) \<noteq> [] \<and>
            last (take (nat (lb ! (nat i + 1) - lb ! nat i)) (drop (nat (lb ! nat i)) (source b)))
              = newline) \<and>
         (0 \<le> i \<and> i + 1 = int (length lb) \<longrightarrow>
            fst (source_line b lineno) = Inr (drop (nat (lb ! nat i)) (source b))) \<and>
         (i < 0 \<or> int (length lb) \<le> i \<longrightarrow> fst (source_line b lineno) = Inl IndexError) \<and>
         fst (source_line (Buffer_init ''ab\<newline>cd\<newline>ef'' ''<input>'' 1) 1) = Inr ''ab\<newline>'' \<and>
         fst (source_line (Buffer_init ''ab\<newline>cd\<newline>ef'' ''<input>'' 1) 2) = Inr ''cd\<newline>'' \<and>
         fst (source_line (Buffer_init ''ab\<newline>cd\<newline>ef'' ''<input>'' 1) 3) = Inr ''ef''"
proof -
  have lb: "lb = line_index (source b)"
    by (simp add: lb_def extract_line_begins_eq[OF assms(1)])
  have ln: "lineno = i + first_line b" by (simp add: i_def)
  note sl = source_line_cases[OF assms(1), of i, folded ln lb]
  have mid: "0 \<le> i \<and> i + 1 < int (length lb) \<longrightarrow>
            fst (source_line b lineno) =
              Inr (take (nat (lb ! (nat i + 1) - lb ! nat i)) (drop (nat (lb ! nat i)) (source b))) \<and>
            take (nat (lb ! (nat i + 1) - lb ! nat i)) (drop (nat (lb ! nat i)) (source b)) \<noteq> [] \<and>
            last (take (nat (lb ! (nat i + 1) - lb ! nat i)) (drop (nat (lb ! nat i)) (source b)))
              = newline"
  proof
    assume h: "0 \<le> i \<and> i + 1 < int (length lb)"
    then have "nat i + 1 < length (line_index (source b))" by (auto simp: lb)
    from source_line_ends_with_newline[OF this] sl(1)[OF h]
    show "fst (source_line b lineno) =
              Inr (take (nat (lb ! (nat i + 1) - lb ! nat i)) (drop (nat (lb ! nat i)) (source b))) \<and>
            take (nat (lb ! (nat i + 1) - lb ! nat i)) (drop (nat (lb ! nat i)) (source b)) \<noteq> [] \<and>
            last (take (nat (lb ! (nat i + 1) - lb ! nat i)) (drop (nat (lb ! nat i)) (source b)))
              = newline"
      by (simp add: lb)
  qed
  have lst: "0 \<le> i \<and> i + 1 = int (length lb) \<longrightarrow>
            fst (source_line b lineno) = Inr (drop (nat (lb ! nat i)) (source b))"
  proof
    assume h: "0 \<le> i \<and> i + 1 = int (length lb)"
    then have ne: "lb \<noteq> []" by auto
    from h have "nat i = length lb - 1" by auto
    then have "last lb = lb ! nat i" using ne by (simp add: last_conv_nth)
    with sl(2)[OF h] show "fst (source_line b lineno) = Inr (drop (nat (lb ! nat i)) (source b))"
      by simp
  qed
  have err: "i < 0 \<or> int (length lb) \<le> i \<longrightarrow> fst (source_line b lineno) = Inl IndexError"
    using sl(3) by blast
  have e1: "fst (source_line (Buffer_init ''ab\<newline>cd\<newline>ef'' ''<input>'' 1) 1) = Inr ''ab\<newline>''"
    by code_simp
  have e2: "fst (source_line (Buffer_init ''ab\<newline>cd\<newline>ef'' ''<input>'' 1) 2) = Inr ''cd\<newline>''"
    by code_simp
  have e3: "fst (source_line (Buffer_init ''ab\<newline>cd\<newline>ef'' ''<input>'' 1) 3) = Inr ''ef''"
    by code_simp
  from mid lst err e1 e2 e3 show ?thesis by blast
qed

theorem source_line_slices_witness:
  "cache_valid (Buffer_init ''ab\<newline>cd\<newline>ef'' ''<input>'' 1) \<and>
   fst (extract_line_begins (Buffer_init ''ab\<newline>cd\<newline>ef'' ''<input>'' 1)) = [0, 3, 6] \<and>
   fst (source_line (Buffer_init ''ab\<newline>cd\<newline>ef'' ''<input>'' 1) 2) =
     Inr (take (nat (6 - 3)) (drop (nat 3) ''ab\<newline>cd\<newline>ef'')) \<and>
   fst (source_line (Buffer_init ''ab\<newline>cd\<newline>ef'' ''<input>'' 1) 3) =
     Inr (drop (nat 6) ''ab\<newline>cd\<newline>ef'') \<and>
   fst (source_line (Buffer_init ''ab\<newline>cd\<newline>ef'' ''<input>'' 1) 0) = Inl IndexError \<and>
   fst (source_line (Buffer_init ''ab\<newline>cd\<newline>ef'' ''<input>'' 1) 4) = Inl IndexError"
proof -
  let ?b = "Buffer_init ''ab\<newline>cd\<newline>ef'' ''<input>'' 1"
  have cv: "cache_valid ?b" by (rule cache_valid_Buffer_init)
  have lb: "fst (extract_line_begins ?b) = [0, 3, 6]" by code_simp
  have fl: "first_line ?b = 1" and src: "source ?b = ''ab\<newline>cd\<newline>ef''"
    by (simp_all add: Buffer_init_def)
  note t2 = source_line_slices[OF cv, of 2, unfolded lb fl]
  have h2: "0 \<le> (2::int) - 1 \<and> 2 - 1 + 1 < int (length [0, 3, 6::int])" by simp
  from t2 h2 have "fst (source_line ?b 2) =
      Inr (take (nat ([0, 3, 6] ! (nat (2 - 1) + 1) - [0, 3, 6] ! nat (2 - 1)))
             (drop (nat ([0, 3, 6] ! nat (2 - 1))) (source ?b)))" by blast
  then have a: "fst (source_line ?b 2) =
      Inr (take (nat (6 - 3)) (drop (nat 3) ''ab\<newline>cd\<newline>ef''))"
    by (simp add: src)
  note t3 = source_line_slices[OF cv, of 3, unfolded lb fl]
  have h3: "0 \<le> (3::int) - 1 \<and> 3 - 1 + 1 = int (length [0, 3, 6::int])" by simp
  from t3 h3 have "fst (source_line ?b 3) =
      Inr (drop (nat ([0, 3, 6] ! nat (3 - 1))) (source ?b))" by blast
  then have b: "fst (source_line ?b 3) = Inr (drop (nat 6) ''ab\<newline>cd\<newline>ef'')"
    by (simp add: src)
  note t0 = source_line_slices[OF cv, of 0, unfolded lb fl]
  have h0: "(0::int) - 1 < 0 \<or> int (length [0, 3, 6::int]) \<le> 0 - 1" by simp
  from t0 h0 have c: "fst (source_line ?b 0) = Inl IndexError" by blast
  note t4 = source_line_slices[OF cv, of 4, unfolded lb fl]
  have h4: "(4::int) - 1 < 0 \<or> int (length [0, 3, 6::int]) \<le> 4 - 1" by simp
  from t4 h4 have d: "fst (source_line ?b 4) = Inl IndexError" by blast
  from cv lb a b c d show ?thesis by blast
qed

section \<open>Range: join, size and source\<close>

text \<open>
  C7. For ranges \<open>a\<close> and \<open>b\<close> over the same buffer, \<open>a.join(b)\<close> is the range of that
  buffer from the smaller \<open>begin_pos\<close> to the larger \<open>end_pos\<close>; so \<open>a.join(b) == b.join(a)\<close>
  and \<open>a.join(a) == a\<close> under \<open>Range.__eq__\<close>. When the two ranges refer to different
  buffers, \<open>join\<close> raises \<open>ValueError\<close>, the cross-buffer error.
\<close>

theorem join_min_max_commutative_idempotent:
  fixes a b :: Range
  shows "(source_buffer a = source_buffer b \<longrightarrow>
            join a b = Inr (Range_init (source_buffer a)
                              (min (begin_pos a) (begin_pos b))
                              (max (end_pos a) (end_pos b))) \<and>
            (\<exists>r1 r2. join a b = Inr r1 \<and> join b a = Inr r2 \<and> Range_eq r1 r2)) \<and>
         (\<exists>r. join a a = Inr r \<and> Range_eq r a) \<and>
         (source_buffer a \<noteq> source_buffer b \<longrightarrow> join a b = Inl ValueError)"
  by (simp add: join_def Range_eq_def Range_init_def min.commute max.commute)

theorem join_min_max_commutative_idempotent_witness:
  "join (Range_init 0 0 2) (Range_init 0 5 7) = Inr (Range_init 0 0 7) \<and>
   join (Range_init 0 5 7) (Range_init 0 0 2) = Inr (Range_init 0 0 7) \<and>
   join (Range_init 0 0 2) (Range_init 1 5 7) = Inl ValueError"
  using join_min_max_commutative_idempotent [of "Range_init 0 0 2" "Range_init 0 5 7"]
        join_min_max_commutative_idempotent [of "Range_init 0 5 7" "Range_init 0 0 2"]
        join_min_max_commutative_idempotent [of "Range_init 0 0 2" "Range_init 1 5 7"]
  by (simp add: Range_init_def)

text \<open>
  C9, as the code has it. A range built with \<open>begin_pos > end_pos\<close> is built as given,
  nothing being validated; \<open>size()\<close> is \<open>end_pos - begin_pos\<close>, a negative number; and
  \<open>source()\<close>, which cannot raise, is the empty string when \<open>end_pos\<close> is non-negative or
  \<open>begin_pos\<close> is negative (both offsets on the same side of zero).
\<close>

theorem reversed_range_size_and_source:
  assumes "ep < bp"
  shows "source_buffer (Range_init sb bp ep) = sb \<and>
         begin_pos (Range_init sb bp ep) = bp \<and>
         end_pos (Range_init sb bp ep) = ep \<and>
         Range_size (Range_init sb bp ep) = ep - bp \<and>
         Range_size (Range_init sb bp ep) < 0 \<and>
         ((0 \<le> ep \<or> bp < 0) \<longrightarrow> Range_source st (Range_init sb bp ep) = [])"
  using assms
  by (simp add: Range_init_def Range_size_def Range_source_def py_slice_reversed_empty)

theorem reversed_range_size_and_source_witness:
  "(2::int) < 4 \<and>
   Range_size (Range_init 0 4 2) = - 2 \<and>
   Range_source (store_of (Buffer_init ''abcde'' ''<input>'' 1)) (Range_init 0 4 2) = []"
proof -
  have h: "(2::int) < 4" by simp
  show ?thesis
    using h reversed_range_size_and_source
              [OF h, of 0 "store_of (Buffer_init ''abcde'' ''<input>'' 1)"]
    by simp
qed

text \<open>
  C9 as stated fails when \<open>begin_pos\<close> is non-negative and \<open>end_pos\<close> negative: the
  negative bound counts from the end of the text, so on \<open>''abcde''\<close> the range from 3 to
  \<open>-1\<close> has the source \<open>''d''\<close>.
\<close>

theorem reversed_range_source_counterexample:
  "(- 1 :: int) < 3 \<and>
   Range_source (store_of (Buffer_init ''abcde'' ''<input>'' 1)) (Range_init 0 3 (- 1)) = ''d'' \<and>
   Range_source (store_of (Buffer_init ''abcde'' ''<input>'' 1)) (Range_init 0 3 (- 1)) \<noteq> []"
  by (simp add: Range_source_def store_of_def Buffer_init_def Range_init_def py_slice_def
        adjust_index_def)

section \<open>Rewriter: overlapping edits\<close>

text \<open>
  C1. Two edits that overlap once sorted should make \<open>rewrite()\<close> raise
  \<open>RewriterConflict\<close> carrying the pair. The code raises \<open>NameError\<close> instead: on the
  buffer \<open>''abcde''\<close> with edits over 0 to 5 and 3 to 8, the constructor of the
  exception fails on the unbound name \<open>exception\<close>.
\<close>

theorem rewrite_overlap_raises_NameError:
  "fst (rewrite (store_of (Buffer_init ''abcde'' ''<input>'' 1))
          (replace (replace (Rewriter_init 0) (Range_init 0 0 5) ''X'') (Range_init 0 3 8) ''Y''))
     = Inl (NameError ''exception'')"
  by code_simp

section \<open>Rewriter: check and splice\<close>

lemma py_slice_from_1: "py_slice xs (Some 1) None = tl xs"
  by (cases xs) (simp_all add: py_slice_def adjust_index_def drop_Suc)

lemma check_loop_zip:
  "check_loop (zip es (tl es)) =
     (if successively (\<lambda>a b. end_pos (fst a) \<le> begin_pos (fst b)) es then Inr ()
      else Inl (NameError ''exception''))"
proof (induction es rule: induct_list012)
  case 1
  then show ?case by simp
next
  case (2 x)
  then show ?case by simp
next
  case (3 x y zs)
  obtain r1 t1 where x: "x = (r1, t1)" by (cases x)
  obtain r2 t2 where y: "y = (r2, t2)" by (cases y)
  from 3(2) show ?case
    by (simp add: x y raise_constructed_def RewriterConflict_init_def not_less)
qed

lemma Rewriter_check_sorted:
  "Rewriter_check (Rewriter_sort rw) =
     (if successively (\<lambda>a b. end_pos (fst a) \<le> begin_pos (fst b))
           (sort_key (\<lambda>x. begin_pos (fst x)) (ranges rw))
      then Inr () else Inl (NameError ''exception''))"
  by (simp add: Rewriter_check_def Rewriter_sort_def py_slice_from_1 check_loop_zip)

lemma rewrite_loop_splice:
  "concat (fst (rewrite_loop src es acc pos)) @
     py_slice src (Some (snd (rewrite_loop src es acc pos))) None =
   concat acc @ splice src pos es"
  by (induction es arbitrary: acc pos) auto

lemma rewrite_no_conflict:
  assumes "successively (\<lambda>a b. end_pos (fst a) \<le> begin_pos (fst b))
             (sort_key (\<lambda>x. begin_pos (fst x)) (ranges rw))"
  shows "rewrite st rw =
           (Inr (Buffer_init
                   (splice (source (st (buffer rw))) 0 (sort_key (\<lambda>x. begin_pos (fst x)) (ranges rw)))
                   (name (st (buffer rw))) (first_line (st (buffer rw)))),
            Rewriter_sort rw)"
proof -
  let ?es = "sort_key (\<lambda>x. begin_pos (fst x)) (ranges rw)"
  let ?src = "source (st (buffer rw))"
  have chk: "Rewriter_check (Rewriter_sort rw) = Inr ()"
    using assms by (simp add: Rewriter_check_sorted)
  have rs: "ranges (Rewriter_sort rw) = ?es" "buffer (Rewriter_sort rw) = buffer rw"
    by (simp_all add: Rewriter_sort_def)
  have "concat (fst (rewrite_loop ?src ?es [] 0) @
                [py_slice ?src (Some (snd (rewrite_loop ?src ?es [] 0))) None]) =
        splice ?src 0 ?es"
    using rewrite_loop_splice[of ?src ?es "[]" 0] by simp
  then show ?thesis
    by (simp add: rewrite_def chk rs Let_def split_beta)
qed

lemma rewrite_conflict:
  assumes "\<not> successively (\<lambda>a b. end_pos (fst a) \<le> begin_pos (fst b))
             (sort_key (\<lambda>x. begin_pos (fst x)) (ranges rw))"
  shows "rewrite st rw = (Inl (NameError ''exception''), Rewriter_sort rw)"
  using assms by (simp add: rewrite_def Rewriter_check_sorted Let_def)

lemma splice_adjusted:
  "splice src c es =
     splice_at (adjust_index (length src)) src (adjust_index (length src) c) es"
proof (induction es arbitrary: c)
  case Nil
  show ?case by (simp add: py_slice_def Let_def)
next
  case (Cons e es)
  obtain r t where e: "e = (r, t)" by (cases e)
  show ?case by (simp add: e Cons.IH py_slice_def Let_def)
qed

lemma take_drop_clip:
  "take (min b (length xs) - min c (length xs)) (drop (min c (length xs)) xs) =
   take (b - c) (drop c xs)"
proof (cases "c < length xs")
  case True
  then have "take (min b (length xs) - c) (drop c xs) = take (b - c) (drop c xs)"
    by (cases "b \<le> length xs") (simp_all add: min_def)
  with True show ?thesis by (simp add: min_def)
next
  case False
  then show ?thesis by simp
qed

lemma adjust_index_nonneg: "0 \<le> p \<Longrightarrow> adjust_index n p = min (nat p) n"
  by (auto simp: adjust_index_def)

lemma clamp_offset_nonneg: "0 \<le> p \<Longrightarrow> clamp_offset n p = min (nat p) n"
  by (auto simp: clamp_offset_def)

lemma splice_at_clip:
  assumes "\<forall>e \<in> set es. f (begin_pos (fst e)) = min (g (begin_pos (fst e))) (length src) \<and>
                          f (end_pos (fst e)) = min (g (end_pos (fst e))) (length src)"
  shows "splice_at f src (min c (length src)) es = splice_at g src c es"
  using assms
proof (induction es arbitrary: c)
  case Nil
  show ?case by (cases "c \<le> length src") (simp_all add: min_def)
next
  case (Cons e es)
  obtain r t where e: "e = (r, t)" by (cases e)
  from Cons.prems have fb: "f (begin_pos r) = min (g (begin_pos r)) (length src)"
    and fe: "f (end_pos r) = min (g (end_pos r)) (length src)" by (simp_all add: e)
  from Cons.prems have rest: "\<forall>e \<in> set es. f (begin_pos (fst e)) = min (g (begin_pos (fst e))) (length src) \<and>
                          f (end_pos (fst e)) = min (g (end_pos (fst e))) (length src)" by simp
  show ?case
    by (simp add: e fb fe take_drop_clip Cons.IH[OF rest])
qed

lemma splice_at_cong_on:
  assumes "\<forall>e \<in> set es. f (begin_pos (fst e)) = g (begin_pos (fst e)) \<and>
                          f (end_pos (fst e)) = g (end_pos (fst e))"
  shows "splice_at f src c es = splice_at g src c es"
  using assms by (induction es arbitrary: c) auto

section \<open>Rewriter: the result of rewrite\<close>

text \<open>
  C2. When the edits, sorted by \<open>begin_pos\<close>, do not overlap (each ends at or before
  the start of every later one), \<open>rewrite()\<close> returns a new buffer: its name and its
  first line are those of the original, its line index is not yet computed, and its
  text is the splice of the source with the sorted edits. When no offset is negative,
  the pieces of the splice are the characters from the cursor up to the edit's
  \<open>begin_pos\<close>. With no edits the text is the source itself, and on \<open>''abcde''\<close>
  replacing 0 to 2 by \<open>''XY''\<close> and removing 3 to 5 gives the text \<open>''XYc''\<close>, with the
  name and first line unchanged.
\<close>

theorem rewrite_splices_edits:
  assumes "sorted_wrt (\<lambda>a b. end_pos (fst a) \<le> begin_pos (fst b))
             (sort_key (\<lambda>x. begin_pos (fst x)) (ranges rw))"
  shows "(\<exists>buf. fst (rewrite st rw) = Inr buf \<and>
            source buf =
              splice (source (st (buffer rw))) 0
                (sort_key (\<lambda>x. begin_pos (fst x)) (ranges rw)) \<and>
            name buf = name (st (buffer rw)) \<and>
            first_line buf = first_line (st (buffer rw)) \<and>
            line_begins_cache buf = None \<and>
            ((\<forall>e \<in> set (ranges rw). 0 \<le> begin_pos (fst e) \<and> 0 \<le> end_pos (fst e)) \<longrightarrow>
               source buf =
                 splice_at nat (source (st (buffer rw))) 0
                   (sort_key (\<lambda>x. begin_pos (fst x)) (ranges rw))) \<and>
            (ranges rw = [] \<longrightarrow> source buf = source (st (buffer rw)))) \<and>
         (\<exists>buf. fst (rewrite
                       (store_of \<lparr>source = ''abcde'', name = ''<input>'', first_line = 1,
                                  line_begins_cache = None\<rparr>)
                       (remove (replace (Rewriter_init 0) (Range_init 0 0 2) ''XY'')
                          (Range_init 0 3 5))) = Inr buf \<and>
            source buf = ''XYc'' \<and> name buf = ''<input>'' \<and> first_line buf = 1 \<and>
            line_begins_cache buf = None)"
proof -
  let ?es = "sort_key (\<lambda>x. begin_pos (fst x)) (ranges rw)"
  let ?b = "st (buffer rw)"
  let ?src = "source ?b"
  let ?buf = "Buffer_init (splice ?src 0 ?es) (name ?b) (first_line ?b)"
  have succ: "successively (\<lambda>a b. end_pos (fst a) \<le> begin_pos (fst b)) ?es"
    using assms by (rule successively_if_sorted_wrt)
  have res: "fst (rewrite st rw) = Inr ?buf"
    by (simp add: rewrite_no_conflict[OF succ])
  have sb: "source ?buf = splice ?src 0 ?es" and nm: "name ?buf = name ?b"
    and fl: "first_line ?buf = first_line ?b" and ca: "line_begins_cache ?buf = None"
    by (simp_all add: Buffer_init_def)
  have plain: "(\<forall>e \<in> set (ranges rw). 0 \<le> begin_pos (fst e) \<and> 0 \<le> end_pos (fst e)) \<longrightarrow>
      source ?buf = splice_at nat ?src 0 ?es"
  proof
    assume nn: "\<forall>e \<in> set (ranges rw). 0 \<le> begin_pos (fst e) \<and> 0 \<le> end_pos (fst e)"
    have "splice ?src 0 ?es = splice_at (adjust_index (length ?src)) ?src (min 0 (length ?src)) ?es"
      by (simp add: splice_adjusted adjust_index_def)
    also have "\<dots> = splice_at nat ?src 0 ?es"
      using nn by (intro splice_at_clip) (simp add: adjust_index_nonneg)
    finally show "source ?buf = splice_at nat ?src 0 ?es" using sb by (simp only:)
  qed
  have zero: "ranges rw = [] \<longrightarrow> source ?buf = ?src"
  proof
    assume "ranges rw = []"
    then have "splice ?src 0 ?es = ?src" by (simp add: py_slice_def adjust_index_def)
    with sb show "source ?buf = ?src" by (simp only:)
  qed
  have general: "\<exists>buf. fst (rewrite st rw) = Inr buf \<and>
            source buf = splice ?src 0 ?es \<and> name buf = name ?b \<and>
            first_line buf = first_line ?b \<and> line_begins_cache buf = None \<and>
            ((\<forall>e \<in> set (ranges rw). 0 \<le> begin_pos (fst e) \<and> 0 \<le> end_pos (fst e)) \<longrightarrow>
               source buf = splice_at nat ?src 0 ?es) \<and>
            (ranges rw = [] \<longrightarrow> source buf = ?src)"
    using res sb nm fl ca plain zero by blast
  have ev: "fst (rewrite
                  (store_of \<lparr>source = ''abcde'', name = ''<input>'', first_line = 1,
                             line_begins_cache = None\<rparr>)
                  (remove (replace (Rewriter_init 0) (Range_init 0 0 2) ''XY'')
                     (Range_init 0 3 5)))
              = Inr \<lparr>source = ''XYc'', name = ''<input>'', first_line = 1,
                      line_begins_cache = None\<rparr>"
    by code_simp
  have scenario: "\<exists>buf. fst (rewrite
                       (store_of \<lparr>source = ''abcde'', name = ''<input>'', first_line = 1,
                                  line_begins_cache = None\<rparr>)
                       (remove (replace (Rewriter_init 0) (Range_init 0 0 2) ''XY'')
                          (Range_init 0 3 5))) = Inr buf \<and>
            source buf = ''XYc'' \<and> name buf = ''<input>'' \<and> first_line buf = 1 \<and>
            line_begins_cache buf = None"
    unfolding ev by simp
  from general scenario show ?thesis by (rule conjI)
qed

theorem rewrite_splices_edits_witness:
  "sorted_wrt (\<lambda>a b. end_pos (fst a) \<le> begin_pos (fst b))
     (sort_key (\<lambda>x. begin_pos (fst x))
        [(Range_init 0 3 5, ''''), (Range_init 0 0 2, ''XY'')]) \<and>
   (\<exists>buf. fst (rewrite
                 (store_of \<lparr>source = ''abcde'', name = ''<input>'', first_line = 1,
                            line_begins_cache = None\<rparr>)
                 \<lparr>buffer = 0, ranges = [(Range_init 0 3 5, ''''), (Range_init 0 0 2, ''XY'')]\<rparr>)
            = Inr buf \<and>
          source buf = ''XYc'' \<and> name buf = ''<input>'' \<and> first_line buf = 1 \<and>
          line_begins_cache buf = None \<and>
          source buf =
            splice_at nat ''abcde'' 0 [(Range_init 0 0 2, ''XY''), (Range_init 0 3 5, '''')]) \<and>
   (\<exists>buf. fst (rewrite
                 (store_of \<lparr>source = ''abcde'', name = ''<input>'', first_line = 1,
                            line_begins_cache = None\<rparr>)
                 (Rewriter_init 0)) = Inr buf \<and>
          source buf = ''abcde'' \<and> name buf = ''<input>'' \<and> first_line buf = 1)"
proof -
  let ?b = "\<lparr>source = ''abcde'', name = ''<input>'', first_line = 1,
             line_begins_cache = None\<rparr>"
  let ?st = "store_of ?b"
  let ?rw = "\<lparr>buffer = 0, ranges = [(Range_init 0 3 5, ''''), (Range_init 0 0 2, ''XY'')]\<rparr>"
  let ?es = "[(Range_init 0 0 2, ''XY''), (Range_init 0 3 5, '''')]"
  have srt: "sort_key (\<lambda>x. begin_pos (fst x)) (ranges ?rw) = ?es"
    by (simp add: Range_init_def)
  have h: "sorted_wrt (\<lambda>a b. end_pos (fst a) \<le> begin_pos (fst b))
             (sort_key (\<lambda>x. begin_pos (fst x)) (ranges ?rw))"
    by (simp add: Range_init_def)
  have nn: "\<forall>e \<in> set (ranges ?rw). 0 \<le> begin_pos (fst e) \<and> 0 \<le> end_pos (fst e)"
    by (simp add: Range_init_def)
  from rewrite_splices_edits[OF h, of ?st] obtain buf where
    buf: "fst (rewrite ?st ?rw) = Inr buf"
         "source buf = splice (source (?st (buffer ?rw))) 0
                         (sort_key (\<lambda>x. begin_pos (fst x)) (ranges ?rw))"
         "name buf = name (?st (buffer ?rw))"
         "first_line buf = first_line (?st (buffer ?rw))"
         "line_begins_cache buf = None"
         "(\<forall>e \<in> set (ranges ?rw). 0 \<le> begin_pos (fst e) \<and> 0 \<le> end_pos (fst e)) \<longrightarrow>
            source buf = splice_at nat (source (?st (buffer ?rw))) 0
                           (sort_key (\<lambda>x. begin_pos (fst x)) (ranges ?rw))"
    by blast
  have s1: "source buf = ''XYc''"
    using buf(2) unfolding srt
    by (simp add: store_of_def Range_init_def py_slice_def adjust_index_def)
  have n1: "name buf = ''<input>''" and f1: "first_line buf = 1"
    using buf(3,4) by (simp_all add: store_of_def)
  from buf(6) nn have "source buf = splice_at nat (source (?st (buffer ?rw))) 0
                           (sort_key (\<lambda>x. begin_pos (fst x)) (ranges ?rw))" by blast
  then have p1: "source buf = splice_at nat ''abcde'' 0 ?es"
    unfolding srt by (simp add: store_of_def)
  have first: "\<exists>buf. fst (rewrite ?st ?rw) = Inr buf \<and>
          source buf = ''XYc'' \<and> name buf = ''<input>'' \<and> first_line buf = 1 \<and>
          line_begins_cache buf = None \<and> source buf = splice_at nat ''abcde'' 0 ?es"
    using buf(1) s1 n1 f1 buf(5) p1 by blast
  have h0: "sorted_wrt (\<lambda>a b. end_pos (fst a) \<le> begin_pos (fst b))
             (sort_key (\<lambda>x. begin_pos (fst x)) (ranges (Rewriter_init 0)))"
    by (simp add: Rewriter_init_def)
  have e0: "ranges (Rewriter_init 0) = []" by (simp add: Rewriter_init_def)
  from rewrite_splices_edits[OF h0, of ?st] obtain buf0 where
    buf0: "fst (rewrite ?st (Rewriter_init 0)) = Inr buf0"
          "name buf0 = name (?st (buffer (Rewriter_init 0)))"
          "first_line buf0 = first_line (?st (buffer (Rewriter_init 0)))"
          "ranges (Rewriter_init 0) = [] \<longrightarrow> source buf0 = source (?st (buffer (Rewriter_init 0)))"
    by blast
  from buf0(4) e0 have "source buf0 = source (?st (buffer (Rewriter_init 0)))" by blast
  then have s0: "source buf0 = ''abcde''" by (simp add: store_of_def)
  have n0: "name buf0 = ''<input>''" and f0: "first_line buf0 = 1"
    using buf0(2,3) by (simp_all add: store_of_def)
  have second: "\<exists>buf. fst (rewrite ?st (Rewriter_init 0)) = Inr buf \<and>
          source buf = ''abcde'' \<and> name buf = ''<input>'' \<and> first_line buf = 1"
    using buf0(1) s0 n0 f0 by blast
  from h[unfolded Rewriter.simps] first second show ?thesis by blast
qed

text \<open>
  C8. \<open>_check\<close> on the sorted edits passes exactly when no consecutive pair has the
  second edit's \<open>begin_pos\<close> strictly below the first edit's \<open>end_pos\<close>; a pair that
  touches (the two are equal) passes, and \<open>rewrite()\<close> then returns a buffer and raises
  nothing.
\<close>

theorem touching_edits_pass_check:
  "(Rewriter_check (Rewriter_sort rw) = Inr ()) =
     successively (\<lambda>a b. \<not> begin_pos (fst b) < end_pos (fst a))
       (sort_key (\<lambda>x. begin_pos (fst x)) (ranges rw)) \<and>
   (successively (\<lambda>a b. \<not> begin_pos (fst b) < end_pos (fst a))
       (sort_key (\<lambda>x. begin_pos (fst x)) (ranges rw)) \<longrightarrow>
      (\<exists>buf. fst (rewrite st rw) = Inr buf))"
proof -
  have eq: "(\<lambda>a b. \<not> begin_pos (fst b) < end_pos (fst a)) =
            (\<lambda>a b :: Range \<times> string. end_pos (fst a) \<le> begin_pos (fst b))"
    by (simp add: not_less)
  show ?thesis
    unfolding eq
    by (cases "successively (\<lambda>a b. end_pos (fst a) \<le> begin_pos (fst b))
                 (sort_key (\<lambda>x. begin_pos (fst x)) (ranges rw))")
       (simp_all add: Rewriter_check_sorted rewrite_no_conflict rewrite_conflict)
qed

theorem touching_edits_pass_check_witness:
  "successively (\<lambda>a b. \<not> begin_pos (fst b) < end_pos (fst a))
     (sort_key (\<lambda>x. begin_pos (fst x)) [(Range_init 0 2 4, ''''), (Range_init 0 0 2, ''XY'')]) \<and>
   Rewriter_check (Rewriter_sort
     \<lparr>buffer = 0, ranges = [(Range_init 0 2 4, ''''), (Range_init 0 0 2, ''XY'')]\<rparr>) = Inr () \<and>
   (\<exists>buf. fst (rewrite (store_of (Buffer_init ''abcde'' ''<input>'' 1))
      \<lparr>buffer = 0, ranges = [(Range_init 0 2 4, ''''), (Range_init 0 0 2, ''XY'')]\<rparr>) = Inr buf)"
proof -
  let ?rw = "\<lparr>buffer = 0, ranges = [(Range_init 0 2 4, ''''), (Range_init 0 0 2, ''XY'')]\<rparr>"
  have h: "successively (\<lambda>a b. \<not> begin_pos (fst b) < end_pos (fst a))
             (sort_key (\<lambda>x. begin_pos (fst x)) (ranges ?rw))"
    by (simp add: Range_init_def)
  note t = touching_edits_pass_check[of ?rw "store_of (Buffer_init ''abcde'' ''<input>'' 1)"]
  from t h have a: "Rewriter_check (Rewriter_sort ?rw) = Inr ()" by blast
  from t h have b: "\<exists>buf. fst (rewrite (store_of (Buffer_init ''abcde'' ''<input>'' 1)) ?rw) = Inr buf"
    by blast
  from h[unfolded Rewriter.simps] a b show ?thesis by blast
qed

section \<open>Rewriter: what rewrite does not check\<close>

text \<open>
  C10, as the code has it. When no consecutive pair of the sorted edits has the second
  \<open>begin_pos\<close> strictly below the first \<open>end_pos\<close>, \<open>rewrite()\<close> returns a buffer, with
  the name and first line of the original, whatever buffers the edits' ranges refer to
  and whatever their offsets are. Each offset is adjusted as a slice bound is: one past
  the end becomes the length of the source, a negative one counts back from the end of
  the source and becomes 0 only if it is still negative. When no offset is negative,
  this is the splice with every offset clamped to the source.
\<close>

theorem rewrite_total_without_conflict:
  assumes "successively (\<lambda>a b. \<not> begin_pos (fst b) < end_pos (fst a))
             (sort_key (\<lambda>x. begin_pos (fst x)) (ranges rw))"
  shows "\<exists>buf. fst (rewrite st rw) = Inr buf \<and>
           name buf = name (st (buffer rw)) \<and>
           first_line buf = first_line (st (buffer rw)) \<and>
           source buf =
             splice_at (adjust_index (length (source (st (buffer rw)))))
               (source (st (buffer rw))) 0 (sort_key (\<lambda>x. begin_pos (fst x)) (ranges rw)) \<and>
           ((\<forall>e \<in> set (ranges rw). 0 \<le> begin_pos (fst e) \<and> 0 \<le> end_pos (fst e)) \<longrightarrow>
              source buf =
                splice_at (clamp_offset (length (source (st (buffer rw)))))
                  (source (st (buffer rw))) 0 (sort_key (\<lambda>x. begin_pos (fst x)) (ranges rw)))"
proof -
  let ?es = "sort_key (\<lambda>x. begin_pos (fst x)) (ranges rw)"
  let ?src = "source (st (buffer rw))"
  let ?n = "length ?src"
  have succ: "successively (\<lambda>a b. end_pos (fst a) \<le> begin_pos (fst b)) ?es"
    using assms by (simp add: not_less)
  let ?buf = "Buffer_init (splice ?src 0 ?es) (name (st (buffer rw))) (first_line (st (buffer rw)))"
  have res: "fst (rewrite st rw) = Inr ?buf"
    by (simp add: rewrite_no_conflict[OF succ])
  have adj: "splice ?src 0 ?es = splice_at (adjust_index ?n) ?src 0 ?es"
    by (simp add: splice_adjusted adjust_index_def)
  have clamp: "(\<forall>e \<in> set (ranges rw). 0 \<le> begin_pos (fst e) \<and> 0 \<le> end_pos (fst e)) \<longrightarrow>
                 splice ?src 0 ?es = splice_at (clamp_offset ?n) ?src 0 ?es"
  proof
    assume nn: "\<forall>e \<in> set (ranges rw). 0 \<le> begin_pos (fst e) \<and> 0 \<le> end_pos (fst e)"
    have "splice_at (adjust_index ?n) ?src 0 ?es = splice_at (clamp_offset ?n) ?src 0 ?es"
      using nn by (intro splice_at_cong_on) (simp add: adjust_index_nonneg clamp_offset_nonneg)
    with adj show "splice ?src 0 ?es = splice_at (clamp_offset ?n) ?src 0 ?es" by simp
  qed
  have nm: "name ?buf = name (st (buffer rw))" and fl: "first_line ?buf = first_line (st (buffer rw))"
    and sb: "source ?buf = splice ?src 0 ?es"
    by (simp_all add: Buffer_init_def)
  have s1: "source ?buf = splice_at (adjust_index ?n) ?src 0 ?es"
    using sb adj by (rule trans)
  have s2: "(\<forall>e \<in> set (ranges rw). 0 \<le> begin_pos (fst e) \<and> 0 \<le> end_pos (fst e)) \<longrightarrow>
              source ?buf = splice_at (clamp_offset ?n) ?src 0 ?es"
    using sb clamp by (simp only:)
  from res nm fl s1 s2 show ?thesis by blast
qed

theorem rewrite_total_without_conflict_witness:
  "successively (\<lambda>a b. \<not> begin_pos (fst b) < end_pos (fst a))
     (sort_key (\<lambda>x. begin_pos (fst x)) [(Range_init 7 3 99, ''Z'')]) \<and>
   0 \<le> begin_pos (Range_init 7 3 99) \<and> 0 \<le> end_pos (Range_init 7 3 99) \<and>
   (\<exists>buf. fst (rewrite (store_of (Buffer_init ''abcde'' ''<input>'' 1))
                 \<lparr>buffer = 0, ranges = [(Range_init 7 3 99, ''Z'')]\<rparr>) = Inr buf \<and>
          name buf = ''<input>'' \<and> first_line buf = 1 \<and> source buf = ''abcZ'') \<and>
   splice_at (clamp_offset 5) ''abcde'' 0 [(Range_init 7 3 99, ''Z'')] = ''abcZ''"
proof -
  let ?st = "store_of (Buffer_init ''abcde'' ''<input>'' 1)"
  let ?rw = "\<lparr>buffer = 0, ranges = [(Range_init 7 3 99, ''Z'')]\<rparr>"
  have h: "successively (\<lambda>a b. \<not> begin_pos (fst b) < end_pos (fst a))
             (sort_key (\<lambda>x. begin_pos (fst x)) (ranges ?rw))"
    by simp
  have nn: "0 \<le> begin_pos (Range_init 7 3 99)" "0 \<le> end_pos (Range_init 7 3 99)"
    by (simp_all add: Range_init_def)
  have b: "?st (buffer ?rw) = Buffer_init ''abcde'' ''<input>'' 1"
    by (simp add: store_of_def)
  have cl: "splice_at (clamp_offset 5) ''abcde'' 0 [(Range_init 7 3 99, ''Z'')] = ''abcZ''"
    by (simp add: clamp_offset_def Range_init_def)
  from rewrite_total_without_conflict[OF h, of ?st] obtain buf where
    buf: "fst (rewrite ?st ?rw) = Inr buf"
         "name buf = name (?st (buffer ?rw))"
         "first_line buf = first_line (?st (buffer ?rw))"
         "(\<forall>e \<in> set (ranges ?rw). 0 \<le> begin_pos (fst e) \<and> 0 \<le> end_pos (fst e)) \<longrightarrow>
            source buf = splice_at (clamp_offset (length (source (?st (buffer ?rw)))))
               (source (?st (buffer ?rw))) 0 (sort_key (\<lambda>x. begin_pos (fst x)) (ranges ?rw))"
    by blast
  from buf(4) nn have "source buf = splice_at (clamp_offset (length (source (?st (buffer ?rw)))))
               (source (?st (buffer ?rw))) 0 (sort_key (\<lambda>x. begin_pos (fst x)) (ranges ?rw))"
    by simp
  then have s: "source buf = ''abcZ''"
    by (simp add: store_of_def Buffer_init_def clamp_offset_def Range_init_def)
  from buf(2,3) have nf: "name buf = ''<input>''" "first_line buf = 1"
    by (simp_all add: store_of_def Buffer_init_def)
  from h[unfolded Rewriter.simps] nn buf(1) nf s cl show ?thesis by blast
qed

text \<open>
  C10 as stated says that negative offsets are clamped. They are not: on \<open>''abcde''\<close>
  the edit replacing \<open>-2\<close> to \<open>-1\<close> by \<open>''X''\<close> gives \<open>''abcXe''\<close>, the offsets counting
  from the end, where clamping both to 0 would give \<open>''Xabcde''\<close>.
\<close>

theorem negative_offset_not_clamped_counterexample:
  "successively (\<lambda>a b. \<not> begin_pos (fst b) < end_pos (fst a))
     (sort_key (\<lambda>x. begin_pos (fst x)) [(Range_init 0 (- 2) (- 1), ''X'')]) \<and>
   fst (rewrite (store_of (Buffer_init ''abcde'' ''<input>'' 1))
          (replace (Rewriter_init 0) (Range_init 0 (- 2) (- 1)) ''X''))
     = Inr (Buffer_init ''abcXe'' ''<input>'' 1) \<and>
   splice_at (clamp_offset (length ''abcde'')) ''abcde'' 0 [(Range_init 0 (- 2) (- 1), ''X'')]
     = ''Xabcde'' \<and>
   ''abcXe'' \<noteq> ''Xabcde''"
proof -
  have a: "successively (\<lambda>a b. \<not> begin_pos (fst b) < end_pos (fst a))
     (sort_key (\<lambda>x. begin_pos (fst x)) [(Range_init 0 (- 2) (- 1), ''X'')])" by simp
  have b: "fst (rewrite (store_of (Buffer_init ''abcde'' ''<input>'' 1))
          (replace (Rewriter_init 0) (Range_init 0 (- 2) (- 1)) ''X''))
     = Inr (Buffer_init ''abcXe'' ''<input>'' 1)" by code_simp
  have c: "splice_at (clamp_offset (length ''abcde'')) ''abcde'' 0 [(Range_init 0 (- 2) (- 1), ''X'')]
     = ''Xabcde''" by (simp add: clamp_offset_def Range_init_def)
  have d: "''abcXe'' \<noteq> ''Xabcde''" by simp
  from a b c d show ?thesis by blast
qed

end
